theory Spec2Isabelle
  imports Complex_Main "HOL-Library.Word"
begin

section \<open>The file-transfer protocol of \<^verbatim>\<open>src/App.tsx\<close>\<close>

text \<open>
  Two browsers run the same \<^verbatim>\<open>App\<close> component over one PeerJS data connection. The
  peer that calls \<^verbatim>\<open>sendFile\<close> is the sender, the other one the receiver; both install the
  same \<^verbatim>\<open>data\<close> handler (\<^verbatim>\<open>wireConnection\<close>).

  The embedding has three layers:
  \<^item> the messages and the refs of one component (\<open>App\<close>), with the \<^verbatim>\<open>data\<close> handler
    \<open>onData\<close> as a function from a message and the refs to the new refs and the messages
    the handler sends back;
  \<^item> the locals of one call of \<^verbatim>\<open>sendFile\<close> with a program counter for each point where
    the \<^verbatim>\<open>async\<close> function is suspended;
  \<^item> the system of both peers and the two directions of the channel, with one step
    function over the events of the JavaScript event loop.
\<close>

subsection \<open>Numbers\<close>

text \<open>
  Sizes, offsets and byte counts are lengths, hence natural numbers. Two expressions of
  the source leave the integers: \<^verbatim>\<open>Math.ceil(m.size / m.chunkSize)\<close> and
  \<^verbatim>\<open>Math.min(100, Math.floor((a / b) * 100))\<close>. Division by zero gives \<^verbatim>\<open>Infinity\<close>, or
  \<^verbatim>\<open>NaN\<close> for \<^verbatim>\<open>0 / 0\<close>, and both survive \<^verbatim>\<open>Math.ceil\<close> and \<^verbatim>\<open>Math.floor\<close>;
  \<^verbatim>\<open>Math.min(100, Infinity)\<close> is 100 and \<^verbatim>\<open>Math.min(100, NaN)\<close> is \<^verbatim>\<open>NaN\<close>.
\<close>

datatype jsnum = Num int | Infinity | NaN

text \<open>
  \<^verbatim>\<open>Math.ceil(a / b)\<close>. For integers below \<open>2^53\<close> the rounded quotient of two of them
  never crosses an integer, so the ceiling is that of the exact quotient.
\<close>

definition ceil_div :: "nat \<Rightarrow> nat \<Rightarrow> jsnum" where
  "ceil_div a b =
     (if b = 0 then (if a = 0 then NaN else Infinity)
      else Num \<lceil>(of_nat a :: rat) / of_nat b\<rceil>)"

text \<open>
  \<^verbatim>\<open>Math.min(100, Math.floor((a / b) * 100))\<close>. The quotient is rounded to a double and so
  is its product with 100 (in JavaScript \<^verbatim>\<open>(29 / 100) * 100\<close> is \<^verbatim>\<open>28.999999999999996\<close>), so
  the rounding \<open>rnd\<close> of the platform is a parameter of the model. What the proofs use of
  it is \<open>rounding\<close>: it is monotone and keeps zero.
\<close>

definition percent :: "(rat \<Rightarrow> rat) \<Rightarrow> nat \<Rightarrow> nat \<Rightarrow> jsnum" where
  "percent rnd a b =
     (if b = 0 then (if a = 0 then NaN else Num 100)
      else Num (min 100 \<lfloor>rnd (rnd (of_nat a / of_nat b) * 100)\<rfloor>))"

definition rounding :: "(rat \<Rightarrow> rat) \<Rightarrow> bool" where
  "rounding rnd \<longleftrightarrow> mono rnd \<and> rnd 0 = 0"

text \<open>The number behind a reported progress value (0 for the two that are no number).\<close>

fun num_of :: "jsnum \<Rightarrow> int" where
  "num_of (Num n) = n"
| "num_of Infinity = 0"
| "num_of NaN = 0"

fun is_Num :: "jsnum \<Rightarrow> bool" where
  "is_Num (Num n) = True"
| "is_Num Infinity = False"
| "is_Num NaN = False"

subsection \<open>Messages\<close>

type_synonym ArrayBuffer = "8 word list"

record Meta =
  meta_name :: string
  meta_size :: nat
  meta_mime :: string
  meta_chunkSize :: nat

datatype IncomingMessage =
    MetaMsg Meta
  | Chunk int ArrayBuffer
  | Eof
  | Ack int

fun is_Ack :: "IncomingMessage \<Rightarrow> bool" where
  "is_Ack (Ack i) = True"
| "is_Ack (MetaMsg m) = False"
| "is_Ack (Chunk i p) = False"
| "is_Ack Eof = False"

text \<open>The payloads of the \<^verbatim>\<open>chunk\<close> messages of a list of messages, in order.\<close>

fun payloads :: "IncomingMessage list \<Rightarrow> ArrayBuffer list" where
  "payloads [] = []"
| "payloads (Chunk i p # ms) = p # payloads ms"
| "payloads (MetaMsg m # ms) = payloads ms"
| "payloads (Eof # ms) = payloads ms"
| "payloads (Ack i # ms) = payloads ms"

subsection \<open>The refs of one component and its data handler\<close>

text \<open>
  What \<^verbatim>\<open>a.click()\<close> hands to the browser on \<^verbatim>\<open>eof\<close>: the blob made of the stored
  buffers, under the name and the type of the stored descriptor.
\<close>

record Download =
  dl_name :: string
  dl_mime :: string
  dl_data :: ArrayBuffer

text \<open>
  \<open>recvProgress\<close> and \<open>sendProgress\<close> list the arguments of the calls of
  \<^verbatim>\<open>setRecvProgress\<close> and \<^verbatim>\<open>setSendProgress\<close>, oldest first; \<open>downloads\<close> lists the
  blobs handed to the browser. The other fields are the refs of the source.
\<close>

record App =
  receiveBuffers :: "ArrayBuffer list"
  expectedChunks :: jsnum
  receivedBytes :: nat
  metaRef :: "Meta option"
  busyRef :: bool
  recvProgress :: "jsnum list"
  sendProgress :: "jsnum list"
  downloads :: "Download list"

definition App_init :: App where
  "App_init =
     \<lparr>receiveBuffers = [], expectedChunks = Num 0, receivedBytes = 0, metaRef = None,
      busyRef = False, recvProgress = [], sendProgress = [], downloads = []\<rparr>"

text \<open>
  The handler of \<^verbatim>\<open>c.on("data", ...)\<close>: the new refs and the messages passed to
  \<^verbatim>\<open>c.send\<close>, one equation for each branch of the source.
\<close>

fun onData :: "(rat \<Rightarrow> rat) \<Rightarrow> IncomingMessage \<Rightarrow> App \<Rightarrow> App \<times> IncomingMessage list" where
  "onData rnd (MetaMsg m) a =
     (a\<lparr>metaRef := Some m,
        expectedChunks := ceil_div (meta_size m) (meta_chunkSize m),
        receiveBuffers := [],
        receivedBytes := 0,
        recvProgress := recvProgress a @ [Num 0]\<rparr>,
      [Ack (- 1)])"
| "onData rnd (Chunk i p) a =
     (let a1 = a\<lparr>receiveBuffers := receiveBuffers a @ [p],
                  receivedBytes := receivedBytes a + length p\<rparr>;
          a2 = (case metaRef a1 of
                  None \<Rightarrow> a1
                | Some m \<Rightarrow>
                    a1\<lparr>recvProgress :=
                         recvProgress a1 @ [percent rnd (receivedBytes a1) (meta_size m)]\<rparr>)
      in (a2, [Ack i]))"
| "onData rnd Eof a =
     (case metaRef a of
        None \<Rightarrow> (a, [])
      | Some m \<Rightarrow>
          (a\<lparr>downloads := downloads a @
                 [\<lparr>dl_name = meta_name m, dl_mime = meta_mime m,
                   dl_data = concat (receiveBuffers a)\<rparr>],
             recvProgress := recvProgress a @ [Num 100]\<rparr>,
           []))"
| "onData rnd (Ack i) a = (a\<lparr>busyRef := False\<rparr>, [])"

subsection \<open>One call of \<^verbatim>\<open>sendFile\<close>\<close>

record File =
  file_name :: string
  file_type :: string
  file_bytes :: ArrayBuffer

text \<open>
  \<^verbatim>\<open>const chunkSize = 16 * 1024\<close>. The model takes the piece size as a parameter, \<open>piece\<close>
  below; what is proved for every positive piece size holds of this one.
\<close>

definition chunkSize :: nat where
  "chunkSize = 16 * 1024"

text \<open>
  What \<^verbatim>\<open>conn.send\<close> does on a connection that is closed belongs to the PeerJS library,
  which either drops the message and returns (\<open>Drops\<close>) or fails (\<open>Throws\<close>, the
  \<^verbatim>\<open>ChannelClosed\<close> of the interface description); it is a parameter too.
\<close>

datatype closed_send = Drops | Throws

record env =
  rnd :: "rat \<Rightarrow> rat"
  piece :: nat
  on_closed :: closed_send

text \<open>
  The points at which \<^verbatim>\<open>sendFile\<close> is suspended or about to go on:
  \<open>PcIdle\<close> before the call, \<open>PcLoop\<close> at the test of the \<^verbatim>\<open>while\<close>, \<open>PcSlice\<close> in
  \<^verbatim>\<open>await slice.arrayBuffer()\<close>, \<open>PcWaitChunk buf\<close> in the \<^verbatim>\<open>waitForAck\<close> of the loop,
  \<open>PcWaitEof\<close> in the \<^verbatim>\<open>waitForAck\<close> after the loop, \<open>PcDone\<close> after the last statement,
  \<open>PcFailed\<close> after a \<^verbatim>\<open>conn.send\<close> that failed.
\<close>

datatype pc = PcIdle | PcLoop | PcSlice | PcWaitChunk ArrayBuffer | PcWaitEof | PcDone | PcFailed

text \<open>
  The system: the refs of both peers, the locals of the sender's \<^verbatim>\<open>sendFile\<close>, the
  messages in flight in each direction and whether the connection is open. Three fields
  only record: \<open>sent\<close> the arguments of the sender's calls of \<^verbatim>\<open>conn.send\<close>, \<open>acks\<close> the
  number of \<^verbatim>\<open>ack\<close> messages its handler has seen, \<open>handled\<close> the messages the receiver's
  handler has seen.
\<close>

record System =
  sender :: App
  receiver :: App
  file' :: "File option"
  pc :: pc
  offset :: nat
  index :: int
  to_receiver :: "IncomingMessage list"
  to_sender :: "IncomingMessage list"
  is_open :: bool
  sent :: "IncomingMessage list"
  acks :: nat
  handled :: "IncomingMessage list"

definition init :: "File option \<Rightarrow> System" where
  "init f =
     \<lparr>sender = App_init, receiver = App_init, file' = f, pc = PcIdle, offset = 0, index = 0,
      to_receiver = [], to_sender = [], is_open = True, sent = [], acks = 0, handled = []\<rparr>"

datatype error = ChannelClosed

text \<open>The sender's \<^verbatim>\<open>conn.send(msg)\<close>.\<close>

definition conn_send :: "env \<Rightarrow> IncomingMessage \<Rightarrow> System \<Rightarrow> error + System" where
  "conn_send E msg s =
     (if is_open s then Inr (s\<lparr>to_receiver := to_receiver s @ [msg], sent := sent s @ [msg]\<rparr>)
      else (case on_closed E of
              Drops \<Rightarrow> Inr (s\<lparr>sent := sent s @ [msg]\<rparr>)
            | Throws \<Rightarrow> Inl ChannelClosed))"

text \<open>A failed \<^verbatim>\<open>conn.send\<close> ends the \<^verbatim>\<open>async\<close> function; the call itself is recorded.\<close>

definition failed :: "IncomingMessage \<Rightarrow> System \<Rightarrow> System" where
  "failed msg s = s\<lparr>sent := sent s @ [msg], pc := PcFailed\<rparr>"

definition setSendProgress :: "jsnum \<Rightarrow> System \<Rightarrow> System" where
  "setSendProgress p s = s\<lparr>sender := (sender s)\<lparr>sendProgress := sendProgress (sender s) @ [p]\<rparr>\<rparr>"

definition set_busy :: "bool \<Rightarrow> System \<Rightarrow> System" where
  "set_busy b s = s\<lparr>sender := (sender s)\<lparr>busyRef := b\<rparr>\<rparr>"

text \<open>The descriptor \<^verbatim>\<open>sendFile\<close> builds.\<close>

definition meta_of :: "env \<Rightarrow> File \<Rightarrow> Meta" where
  "meta_of E f =
     \<lparr>meta_name = file_name f,
      meta_size = length (file_bytes f),
      meta_mime = (if file_type f = [] then ''application/octet-stream'' else file_type f),
      meta_chunkSize = piece E\<rparr>"

text \<open>
  The call of \<^verbatim>\<open>sendFile\<close> up to the loop. A call without a file or a connection returns
  at once.
\<close>

definition sendFile :: "env \<Rightarrow> System \<Rightarrow> System" where
  "sendFile E s =
     (case file' s of
        None \<Rightarrow> s
      | Some f \<Rightarrow>
          if \<not> is_open s then s
          else (let s1 = setSendProgress (Num 0) s in
                case conn_send E (MetaMsg (meta_of E f)) s1 of
                  Inl e \<Rightarrow> failed (MetaMsg (meta_of E f)) s1
                | Inr s2 \<Rightarrow> s2\<lparr>offset := 0, index := 0, pc := PcLoop\<rparr>))"

text \<open>
  \<^verbatim>\<open>trySend\<close>, the body of the promise of \<^verbatim>\<open>waitForAck\<close>: it finds the flag set and arms
  the timer again (\<open>None\<close>: the promise stays pending), or finds it clear, sets it and
  resolves. The \<^verbatim>\<open>conn\<close> that \<^verbatim>\<open>waitForAck\<close> tests first is the one of the render in
  which \<^verbatim>\<open>sendFile\<close> was called, which \<^verbatim>\<open>sendFile\<close> has found set; the \<^verbatim>\<open>close\<close> handler
  changes the state of later renders only, so that test never succeeds in a running
  transfer.
\<close>

definition trySend :: "System \<Rightarrow> System option" where
  "trySend s = (if busyRef (sender s) then None else Some (set_busy True s))"

text \<open>
  \<^verbatim>\<open>sendFile\<close> goes on from where it is suspended: the test of the loop, the bytes of
  the slice, or a run of \<^verbatim>\<open>trySend\<close>; when that resolves, the statements up to the next
  suspension follow, and when it does not the state stays as it is.
\<close>

definition resume :: "env \<Rightarrow> File \<Rightarrow> System \<Rightarrow> System option" where
  "resume E f s =
     (case pc s of
        PcIdle \<Rightarrow> None
      | PcLoop \<Rightarrow>
          Some (if offset s < length (file_bytes f) then s\<lparr>pc := PcSlice\<rparr>
                else s\<lparr>pc := PcWaitEof\<rparr>)
      | PcSlice \<Rightarrow>
          Some (s\<lparr>pc := PcWaitChunk (take (piece E) (drop (offset s) (file_bytes f)))\<rparr>)
      | PcWaitChunk buf \<Rightarrow>
          Some (case trySend s of
                  None \<Rightarrow> s
                | Some s1 \<Rightarrow>
                    (case conn_send E (Chunk (index s) buf) s1 of
                       Inl e \<Rightarrow> failed (Chunk (index s) buf) s1
                     | Inr s2 \<Rightarrow>
                         (let s3 = s2\<lparr>offset := offset s2 + piece E, index := index s2 + 1\<rparr>;
                              s4 = setSendProgress
                                     (percent (rnd E) (offset s3) (length (file_bytes f))) s3
                          in s4\<lparr>pc := PcLoop\<rparr>)))
      | PcWaitEof \<Rightarrow>
          Some (case trySend s of
                  None \<Rightarrow> s
                | Some s1 \<Rightarrow>
                    (case conn_send E Eof s1 of
                       Inl e \<Rightarrow> failed Eof s1
                     | Inr s2 \<Rightarrow> (setSendProgress (Num 100) s2)\<lparr>pc := PcDone\<rparr>))
      | PcDone \<Rightarrow> None
      | PcFailed \<Rightarrow> None)"

subsection \<open>The event loop\<close>

text \<open>
  \<open>Click\<close> is the click on the send button, \<open>Resume\<close> the promise or timer that
  \<^verbatim>\<open>sendFile\<close> waits for, \<open>ReceiverData\<close> and \<open>SenderData\<close> a \<^verbatim>\<open>data\<close> event at the
  receiver and at the sender, \<open>Close\<close> the \<^verbatim>\<open>close\<close> event. A message is delivered only on
  an open connection, in the order it was sent. An event is \<open>None\<close> where it cannot
  happen. JavaScript runs each handler to its next \<^verbatim>\<open>await\<close> without interruption; the
  steps here are finer, so every execution of the source is one of the model. One
  transfer is modelled: \<open>Click\<close> happens only before \<^verbatim>\<open>sendFile\<close> has been called.
\<close>

datatype event = Click | Resume | ReceiverData | SenderData | Close

definition step :: "env \<Rightarrow> event \<Rightarrow> System \<Rightarrow> System option" where
  "step E e s =
     (case e of
        Click \<Rightarrow> (if pc s = PcIdle then Some (sendFile E s) else None)
      | Resume \<Rightarrow> (case file' s of None \<Rightarrow> None | Some f \<Rightarrow> resume E f s)
      | ReceiverData \<Rightarrow>
          (case to_receiver s of
             [] \<Rightarrow> None
           | m # ms \<Rightarrow>
               if \<not> is_open s then None
               else (let (b, out) = onData (rnd E) m (receiver s)
                     in Some (s\<lparr>receiver := b, to_receiver := ms,
                                to_sender := to_sender s @ out,
                                handled := handled s @ [m]\<rparr>)))
      | SenderData \<Rightarrow>
          (case to_sender s of
             [] \<Rightarrow> None
           | m # ms \<Rightarrow>
               if \<not> is_open s then None
               else (let (a, out) = onData (rnd E) m (sender s)
                     in Some (s\<lparr>sender := a, to_sender := ms,
                                to_receiver := to_receiver s @ out,
                                sent := sent s @ out,
                                acks := acks s + (if is_Ack m then 1 else 0)\<rparr>)))
      | Close \<Rightarrow> (if is_open s then Some (s\<lparr>is_open := False\<rparr>) else None))"

fun run :: "env \<Rightarrow> event list \<Rightarrow> System \<Rightarrow> System option" where
  "run E [] s = Some s"
| "run E (e # es) s = (case step E e s of None \<Rightarrow> None | Some s' \<Rightarrow> run E es s')"

text \<open>The messages the sender has sent that no acknowledgement has answered yet.\<close>

definition outstanding :: "System \<Rightarrow> int" where
  "outstanding s = int (length (sent s)) - int (acks s)"

subsection \<open>Sample inputs\<close>

text \<open>
  A platform with exact arithmetic, pieces of two bytes and a library that drops what is
  sent on a closed connection; a file of three bytes and an empty file.
\<close>

definition E0 :: env where
  "E0 = \<lparr>rnd = id, piece = 2, on_closed = Drops\<rparr>"

definition F3 :: File where
  "F3 = \<lparr>file_name = ''a'', file_type = [], file_bytes = [1, 2, 3]\<rparr>"

definition F0 :: File where
  "F0 = \<lparr>file_name = ''e'', file_type = ''text/plain'', file_bytes = []\<rparr>"

definition M3 :: Meta where
  "M3 = \<lparr>meta_name = ''a'', meta_size = 3, meta_mime = ''application/octet-stream'',
          meta_chunkSize = 2\<rparr>"

text \<open>
  Refs of a receiver that was promised ten bytes in pieces of four and has stored one
  piece.
\<close>

definition A_short :: App where
  "A_short =
     \<lparr>receiveBuffers = [[1, 2, 3, 4]], expectedChunks = Num 3, receivedBytes = 4,
      metaRef = Some \<lparr>meta_name = ''f'', meta_size = 10, meta_mime = ''t'', meta_chunkSize = 4\<rparr>,
      busyRef = False, recvProgress = [Num 0, Num 40], sendProgress = [], downloads = []\<rparr>"

text \<open>
  A transfer of \<open>F3\<close> up to the point where the sender, piece 0 sent and the flag set,
  waits in \<^verbatim>\<open>waitForAck\<close> with piece 1 in hand, while the acknowledgement of the
  descriptor is on its way; and the state reached.
\<close>

definition wait_trace :: "event list" where
  "wait_trace = [Click, Resume, Resume, Resume, Resume, Resume, ReceiverData]"

definition S_wait :: System where
  "S_wait =
     \<lparr>sender = App_init\<lparr>busyRef := True, sendProgress := [Num 0, Num 66]\<rparr>,
      receiver = App_init\<lparr>metaRef := Some M3, expectedChunks := Num 2,
                   recvProgress := [Num 0]\<rparr>,
      file' = Some F3, pc = PcWaitChunk [3], offset = 2, index = 1,
      to_receiver = [Chunk 0 [1, 2]], to_sender = [Ack (- 1)], is_open = True,
      sent = [MetaMsg M3, Chunk 0 [1, 2]], acks = 0, handled = [MetaMsg M3]\<rparr>"

text \<open>
  A transfer of \<open>F3\<close> in which every message is delivered and acknowledged before the
  sender goes on, and the state it ends in.
\<close>

definition schedule3 :: "event list" where
  "schedule3 =
     [Click, ReceiverData, SenderData,
      Resume, Resume, Resume, ReceiverData, SenderData,
      Resume, Resume, Resume, ReceiverData, SenderData,
      Resume, Resume, ReceiverData]"

definition S_done :: System where
  "S_done =
     \<lparr>sender = App_init\<lparr>busyRef := True,
                sendProgress := [Num 0, Num 66, Num 100, Num 100]\<rparr>,
      receiver =
        \<lparr>receiveBuffers = [[1, 2], [3]], expectedChunks = Num 2, receivedBytes = 3,
         metaRef = Some M3, busyRef = False,
         recvProgress = [Num 0, Num 66, Num 100, Num 100], sendProgress = [],
         downloads = [\<lparr>dl_name = ''a'', dl_mime = ''application/octet-stream'',
                       dl_data = [1, 2, 3]\<rparr>]\<rparr>,
      file' = Some F3, pc = PcDone, offset = 4, index = 2, to_receiver = [], to_sender = [],
      is_open = True, sent = [MetaMsg M3, Chunk 0 [1, 2], Chunk 1 [3], Eof], acks = 3,
      handled = [MetaMsg M3, Chunk 0 [1, 2], Chunk 1 [3], Eof]\<rparr>"




subsection \<open>The transfer as the protocol describes it\<close>

text \<open>
  What the protocol says a transfer of file \<open>f\<close> consists of, to compare the runs of
  the system with: piece \<open>k\<close> is the slice of at most \<open>piece E\<close> bytes at offset
  \<open>k * piece E\<close>, there are \<open>n_pieces\<close> of them, and the sender's messages are the
  descriptor, the pieces in order and the end marker.
\<close>

definition piece_at :: "env \<Rightarrow> File \<Rightarrow> nat \<Rightarrow> ArrayBuffer" where
  "piece_at E f k = take (piece E) (drop (k * piece E) (file_bytes f))"

definition chunks :: "env \<Rightarrow> File \<Rightarrow> nat \<Rightarrow> IncomingMessage list" where
  "chunks E f k = map (\<lambda>i. Chunk (int i) (piece_at E f i)) [0..<k]"

definition n_pieces :: "env \<Rightarrow> File \<Rightarrow> nat" where
  "n_pieces E f = (length (file_bytes f) + piece E - 1) div piece E"

definition script :: "env \<Rightarrow> File \<Rightarrow> IncomingMessage list" where
  "script E f = MetaMsg (meta_of E f) # chunks E f (n_pieces E f) @ [Eof]"

definition download_of :: "env \<Rightarrow> File \<Rightarrow> Download" where
  "download_of E f =
     \<lparr>dl_name = file_name f, dl_mime = meta_mime (meta_of E f), dl_data = file_bytes f\<rparr>"

text \<open>
  The progress values of a sender that has sent \<open>k\<close> pieces and of a receiver that has
  stored them, and the refs of that receiver.
\<close>

definition send_log :: "env \<Rightarrow> File \<Rightarrow> nat \<Rightarrow> jsnum list" where
  "send_log E f k =
     Num 0 # map (\<lambda>i. percent (rnd E) (Suc i * piece E) (length (file_bytes f))) [0..<k]"

definition recv_log :: "env \<Rightarrow> File \<Rightarrow> nat \<Rightarrow> jsnum list" where
  "recv_log E f k =
     Num 0 # map (\<lambda>i. percent (rnd E) (min (Suc i * piece E) (length (file_bytes f)))
                     (length (file_bytes f))) [0..<k]"

definition after_pieces :: "env \<Rightarrow> File \<Rightarrow> nat \<Rightarrow> App" where
  "after_pieces E f k =
     \<lparr>receiveBuffers = map (piece_at E f) [0..<k],
      expectedChunks = ceil_div (length (file_bytes f)) (piece E),
      receivedBytes = min (k * piece E) (length (file_bytes f)),
      metaRef = Some (meta_of E f),
      busyRef = False,
      recvProgress = recv_log E f k,
      sendProgress = [],
      downloads = []\<rparr>"

text \<open>The refs after the handler has seen a list of messages, replies dropped.\<close>

fun feed :: "(rat \<Rightarrow> rat) \<Rightarrow> IncomingMessage list \<Rightarrow> App \<Rightarrow> App" where
  "feed r [] a = a"
| "feed r (m # ms) a = feed r ms (fst (onData r m a))"

subsection \<open>Invariants\<close>

text \<open>
  \<open>sender_inv\<close> ties the locals of \<^verbatim>\<open>sendFile\<close> to what it has sent so far, at each
  point of suspension. \<open>chan_inv\<close> says that what the receiver has handled and what is
  in flight to it are, in order, what the sender has sent (up to messages sent after the
  connection closed), and that only acknowledgements travel to the sender.
\<close>

definition at_piece :: "env \<Rightarrow> File \<Rightarrow> System \<Rightarrow> bool" where
  "at_piece E f s \<longleftrightarrow>
     0 \<le> index s \<and> nat (index s) \<le> n_pieces E f \<and>
     offset s = nat (index s) * piece E \<and>
     sent s = MetaMsg (meta_of E f) # chunks E f (nat (index s)) \<and>
     sendProgress (sender s) = send_log E f (nat (index s))"

definition sender_inv :: "env \<Rightarrow> File \<Rightarrow> System \<Rightarrow> bool" where
  "sender_inv E f s \<longleftrightarrow>
     file' s = Some f \<and>
     (case pc s of
        PcIdle \<Rightarrow> sent s = [] \<and> sendProgress (sender s) = []
      | PcLoop \<Rightarrow> at_piece E f s
      | PcSlice \<Rightarrow> at_piece E f s \<and> nat (index s) < n_pieces E f
      | PcWaitChunk buf \<Rightarrow>
          at_piece E f s \<and> nat (index s) < n_pieces E f \<and> buf = piece_at E f (nat (index s))
      | PcWaitEof \<Rightarrow> at_piece E f s \<and> nat (index s) = n_pieces E f
      | PcDone \<Rightarrow>
          sent s = script E f \<and>
          sendProgress (sender s) = send_log E f (n_pieces E f) @ [Num 100]
      | PcFailed \<Rightarrow>
          ((\<exists>k\<le>n_pieces E f. sent s = MetaMsg (meta_of E f) # chunks E f k) \<or>
           sent s = script E f) \<and>
          (\<exists>j\<le>n_pieces E f. sendProgress (sender s) = send_log E f j))"

definition chan_inv :: "System \<Rightarrow> bool" where
  "chan_inv s \<longleftrightarrow>
     (\<exists>d. sent s = handled s @ to_receiver s @ d \<and> (is_open s \<longrightarrow> d = [])) \<and>
     (\<forall>x\<in>set (to_sender s). is_Ack x)"

definition system_inv :: "env \<Rightarrow> File \<Rightarrow> System \<Rightarrow> bool" where
  "system_inv E f s \<longleftrightarrow>
     sender_inv E f s \<and> chan_inv s \<and> receiver s = feed (rnd E) (handled s) App_init"

text \<open>
  The window of the sender: what is unacknowledged is bounded by one message, or by two
  once the flag is set.
\<close>

definition window_inv :: "System \<Rightarrow> bool" where
  "window_inv s \<longleftrightarrow>
     (\<forall>x\<in>set (to_sender s). is_Ack x) \<and>
     (pc s = PcIdle \<longrightarrow> sent s = []) \<and>
     outstanding s \<le> (if busyRef (sender s) then 2 else 1)"

text \<open>A sender at the loop test with nothing in flight and the flag clear.\<close>

definition quiet :: "File \<Rightarrow> System \<Rightarrow> bool" where
  "quiet f s \<longleftrightarrow>
     pc s = PcLoop \<and> file' s = Some f \<and> \<not> busyRef (sender s) \<and>
     to_receiver s = [] \<and> to_sender s = [] \<and> is_open s"

text \<open>A progress value in 0..100; a non-decreasing list of such values.\<close>

definition in_range :: "jsnum \<Rightarrow> bool" where
  "in_range p \<longleftrightarrow> is_Num p \<and> 0 \<le> num_of p \<and> num_of p \<le> 100"

definition good_log :: "jsnum list \<Rightarrow> bool" where
  "good_log ps \<longleftrightarrow> sorted (map num_of ps) \<and> (\<forall>p\<in>set ps. in_range p)"

section \<open>Properties\<close>

lemmas sys_defs = step_def resume_def trySend_def sendFile_def conn_send_def failed_def setSendProgress_def
  set_busy_def meta_of_def init_def App_init_def

subsection \<open>Arithmetic\<close>

lemma chunkSize_pos: "0 < chunkSize"
  by (simp add: chunkSize_def)

lemma neg_div_neg: "0 < (b::int) \<Longrightarrow> - (- a div b) = (a + b - 1) div b"
proof -
  assume b: "0 < b"
  define q where "q = (a + b - 1) div b"
  define r where "r = (a + b - 1) mod b"
  have eq: "a + b - 1 = b * q + r" unfolding q_def r_def by simp
  have r: "0 \<le> r" "r < b" using b unfolding r_def by simp_all
  have "- a = b * (- q) + (b - 1 - r)" using eq by (simp add: algebra_simps)
  moreover have "0 \<le> b - 1 - r" "b - 1 - r < b" using r by simp_all
  ultimately have "- a div b = - q" by (rule int_div_pos_eq)
  then show ?thesis by (simp add: q_def)
qed

lemma ceiling_div_nat:
  "0 < b \<Longrightarrow> \<lceil>(of_nat a :: 'a :: floor_ceiling) / of_nat b\<rceil> = int ((a + b - 1) div b)"
proof -
  assume b: "0 < b"
  have "\<lceil>(of_nat a :: 'a) / of_nat b\<rceil> = \<lceil>(of_int (int a) :: 'a) / of_int (int b)\<rceil>"
    by simp
  also have "\<dots> = - (- int a div int b)" by (rule ceiling_divide_eq_div)
  also have "\<dots> = (int a + int b - 1) div int b"
    using b by (simp add: neg_div_neg)
  also have "\<dots> = int ((a + b - 1) div b)"
    using b by (simp add: zdiv_int of_nat_diff)
  finally show ?thesis .
qed

lemma floor_rat_numeral:
  "\<lfloor>(numeral a :: rat) / numeral b\<rfloor> = numeral a div numeral b"
  using floor_divide_of_int_eq [of "numeral a" "numeral b", where ?'a = rat] by simp

lemma ceiling_rat_numeral:
  "\<lceil>(numeral a :: rat) / numeral b\<rceil> = - (- numeral a div numeral b)"
  using ceiling_divide_eq_div [of "numeral a" "numeral b", where ?'a = rat] by simp

lemma lt_n_pieces:
  "0 < piece E \<Longrightarrow> k * piece E < length (file_bytes f) \<longleftrightarrow> k < n_pieces E f"
proof -
  assume p: "0 < piece E"
  define P where "P = piece E"
  define L where "L = length (file_bytes f)"
  have "k < (L + P - 1) div P \<longleftrightarrow> k * P < L"
  proof -
    have "k < (L + P - 1) div P \<longleftrightarrow> Suc k \<le> (L + P - 1) div P" by auto
    also have "\<dots> \<longleftrightarrow> Suc k * P \<le> L + P - 1"
      using p by (simp add: P_def less_eq_div_iff_mult_less_eq)
    also have "\<dots> \<longleftrightarrow> k * P < L" using p by (auto simp: P_def)
    finally show ?thesis .
  qed
  then show ?thesis by (simp add: n_pieces_def P_def L_def)
qed

lemma pieces_pos: "0 < piece E \<Longrightarrow> k \<le> n_pieces E f \<Longrightarrow> 0 < length (file_bytes f) \<or> k = 0"
  using lt_n_pieces [of E 0 f] by auto

lemma percent_in_range:
  assumes "rounding r" "0 < b"
  shows "in_range (percent r a b)"
proof -
  from assms(1) have m: "mono r" and z: "r 0 = 0" by (simp_all add: rounding_def)
  have "(0::rat) \<le> of_nat a / of_nat b" by simp
  from monoD [OF m this] z have "0 \<le> r (of_nat a / of_nat b) * 100" by simp
  from monoD [OF m this] z have "0 \<le> r (r (of_nat a / of_nat b) * 100)" by simp
  then have "0 \<le> \<lfloor>r (r (of_nat a / of_nat b) * 100)\<rfloor>" by simp
  with assms(2) show ?thesis by (simp add: in_range_def percent_def)
qed

lemma percent_mono:
  assumes "rounding r" "0 < b" "a \<le> a'"
  shows "num_of (percent r a b) \<le> num_of (percent r a' b)"
proof -
  from assms(1) have m: "mono r" by (simp add: rounding_def)
  have "(of_nat a :: rat) / of_nat b \<le> of_nat a' / of_nat b"
    using assms(2,3) by (simp add: divide_right_mono)
  from monoD [OF m this]
  have "r (of_nat a / of_nat b) * 100 \<le> r (of_nat a' / of_nat b) * 100" by simp
  from monoD [OF m this]
  have "\<lfloor>r (r (of_nat a / of_nat b) * 100)\<rfloor> \<le> \<lfloor>r (r (of_nat a' / of_nat b) * 100)\<rfloor>"
    by (rule floor_mono)
  then have "min 100 \<lfloor>r (r (of_nat a / of_nat b) * 100)\<rfloor> \<le>
      min 100 \<lfloor>r (r (of_nat a' / of_nat b) * 100)\<rfloor>"
    by (rule min.mono [OF order_refl])
  with assms(2) show ?thesis by (simp add: percent_def)
qed

subsection \<open>The data handler\<close>



text \<open>
  C4. The claim does not hold of the source. On refs without a descriptor an end marker
  changes nothing, but a piece is appended to the buffer sequence, counted and
  acknowledged: the \<^verbatim>\<open>chunk\<close> branch keeps only the progress report behind its test of
  the descriptor, where the \<^verbatim>\<open>eof\<close> branch returns. Nor does the \<^verbatim>\<open>eof\<close> branch clear the
  descriptor or the buffers: after the complete transfer of \<open>F3\<close> the descriptor is
  still stored, a second end marker saves the file again, and a piece is stored and
  reports progress.
\<close>

theorem idle_piece_is_stored:
  "metaRef App_init = None \<and>
   onData id Eof App_init = (App_init, []) \<and>
   onData id (Chunk 0 [1]) App_init =
     (App_init\<lparr>receiveBuffers := [[1]], receivedBytes := 1\<rparr>, [Ack 0]) \<and>
   run E0 schedule3 (init (Some F3)) = Some S_done \<and>
   metaRef (receiver S_done) = Some M3 \<and>
   downloads (fst (onData id Eof (receiver S_done))) =
     [download_of E0 F3, download_of E0 F3] \<and>
   receiveBuffers (fst (onData id (Chunk 2 [9]) (receiver S_done))) = [[1, 2], [3], [9]] \<and>
   recvProgress (fst (onData id (Chunk 2 [9]) (receiver S_done))) =
     recvProgress (receiver S_done) @ [Num 100]"
  by (simp add: schedule3_def S_done_def M3_def sys_defs percent_def ceil_div_def E0_def F3_def
      download_of_def floor_rat_numeral ceiling_rat_numeral)

text \<open>
  C9. While the flag is set, a sender waiting in \<^verbatim>\<open>waitForAck\<close> with a piece or the end
  marker in hand stays where it is and sends nothing. An acknowledgement delivered then
  clears the flag whatever its index is, the index of the descriptor's acknowledgement
  (-1) too, and whichever message is outstanding: the next resumption sends the waiting
  message and sets the flag again, and the run is the same for any other index. The
  handler itself clears the flag in every state and gives the same result for every
  index.
\<close>

theorem any_ack_clears_flag:
  assumes "is_open s" and "file' s = Some f" and "busyRef (sender s)"
    and "to_sender s = Ack i # q"
    and "pc s = PcWaitChunk buf \<and> msg = Chunk (index s) buf \<or> pc s = PcWaitEof \<and> msg = Eof"
  shows "run E [Resume] s = Some s \<and>
         map_option (\<lambda>t. busyRef (sender t)) (run E [SenderData] s) = Some False \<and>
         map_option sent (run E [SenderData] s) = Some (sent s) \<and>
         map_option sent (run E [SenderData, Resume] s) = Some (sent s @ [msg]) \<and>
         map_option (\<lambda>t. busyRef (sender t)) (run E [SenderData, Resume] s) = Some True \<and>
         run E [SenderData, Resume] (s\<lparr>to_sender := Ack j # q\<rparr>) =
           run E [SenderData, Resume] s \<and>
         busyRef (fst (onData r (Ack i) a)) = False \<and>
         onData r (Ack i) a = onData r (Ack j) a"
  using assms
  by (auto simp: step_def resume_def trySend_def conn_send_def setSendProgress_def set_busy_def
      Let_def)

text \<open>
  C9 in the transfer of \<open>F3\<close>: piece 0 is the message outstanding and the sender waits
  to send piece 1; resuming it changes nothing, and the acknowledgement of the descriptor
  (index -1) releases piece 1.
\<close>

theorem any_ack_clears_flag_witness:
  "run E0 wait_trace (init (Some F3)) = Some S_wait \<and>
   is_open S_wait \<and> file' S_wait = Some F3 \<and> busyRef (sender S_wait) \<and>
   to_sender S_wait = [Ack (- 1)] \<and> pc S_wait = PcWaitChunk [3] \<and> index S_wait = 1 \<and>
   sent S_wait = [MetaMsg M3, Chunk 0 [1, 2]] \<and>
   run E0 [Resume] S_wait = Some S_wait \<and>
   map_option (\<lambda>t. busyRef (sender t)) (run E0 [SenderData] S_wait) = Some False \<and>
   map_option sent (run E0 [SenderData, Resume] S_wait) =
     Some [MetaMsg M3, Chunk 0 [1, 2], Chunk 1 [3]]"
proof -
  have r: "run E0 wait_trace (init (Some F3)) = Some S_wait"
    by (simp add: wait_trace_def S_wait_def M3_def sys_defs percent_def ceil_div_def E0_def
        F3_def floor_rat_numeral ceiling_rat_numeral)
  have h: "is_open S_wait" "file' S_wait = Some F3" "busyRef (sender S_wait)"
    "to_sender S_wait = [Ack (- 1)]" "pc S_wait = PcWaitChunk [3]" "index S_wait = 1"
    "sent S_wait = [MetaMsg M3, Chunk 0 [1, 2]]"
    by (simp_all add: S_wait_def App_init_def)
  have d: "pc S_wait = PcWaitChunk [3] \<and> Chunk 1 [3] = Chunk (index S_wait) [3] \<or>
      pc S_wait = PcWaitEof \<and> Chunk 1 [3] = Eof"
    using h by simp
  from any_ack_clears_flag [OF h(1,2,3,4) d, of E0 0 id App_init] r h
  show ?thesis by simp
qed

lemma expectedChunks_not_read:
  "snd (onData r msg (a\<lparr>expectedChunks := e\<rparr>)) = snd (onData r msg a) \<and>
   (fst (onData r msg (a\<lparr>expectedChunks := e\<rparr>)))\<lparr>expectedChunks := x\<rparr> =
   (fst (onData r msg a))\<lparr>expectedChunks := x\<rparr>"
  by (cases msg) (simp_all add: Let_def split: option.splits)

text \<open>
  C10. With a stored descriptor, an end marker hands over the concatenation of whatever
  buffers are stored, under the descriptor's name and type, and reports 100, whatever
  the expected piece count, the received-byte counter and the declared size are. No
  branch of the handler reads the expected piece count: the messages sent back and
  every other field of the new refs are the same for any value of it.
\<close>

theorem eof_saves_whatever_arrived:
  assumes "metaRef a = Some m"
  shows "downloads (fst (onData r Eof a)) =
           downloads a @ [\<lparr>dl_name = meta_name m, dl_mime = meta_mime m,
                            dl_data = concat (receiveBuffers a)\<rparr>] \<and>
         last (recvProgress (fst (onData r Eof a))) = Num 100 \<and>
         (\<forall>msg e x. snd (onData r msg (a\<lparr>expectedChunks := e\<rparr>)) = snd (onData r msg a) \<and>
            (fst (onData r msg (a\<lparr>expectedChunks := e\<rparr>)))\<lparr>expectedChunks := x\<rparr> =
            (fst (onData r msg a))\<lparr>expectedChunks := x\<rparr>)"
  using assms expectedChunks_not_read by simp

text \<open>
  C10 at a receiver that expects three pieces and ten bytes and has one piece of four:
  the end marker saves the four bytes and reports 100.
\<close>

theorem eof_saves_whatever_arrived_witness:
  "metaRef A_short =
     Some \<lparr>meta_name = ''f'', meta_size = 10, meta_mime = ''t'', meta_chunkSize = 4\<rparr> \<and>
   expectedChunks A_short = Num 3 \<and> length (receiveBuffers A_short) = 1 \<and>
   receivedBytes A_short = 4 \<and>
   downloads (fst (onData id Eof A_short)) =
     [\<lparr>dl_name = ''f'', dl_mime = ''t'', dl_data = [1, 2, 3, 4]\<rparr>] \<and>
   last (recvProgress (fst (onData id Eof A_short))) = Num 100"
  using eof_saves_whatever_arrived
    [of A_short "\<lparr>meta_name = ''f'', meta_size = 10, meta_mime = ''t'', meta_chunkSize = 4\<rparr>" id]
  by (simp add: A_short_def)

lemma onData_out_acks: "\<forall>x\<in>set (snd (onData r m a)). is_Ack x"
  by (cases m) (simp_all add: Let_def split: option.splits)

lemma onData_Ack_sender: "is_Ack m \<Longrightarrow> onData r m a = (a\<lparr>busyRef := False\<rparr>, [])"
  by (cases m) simp_all

lemma onData_Chunk_out: "snd (onData r (Chunk i p) a) = [Ack i]"
  by (simp add: Let_def)

lemma feed_append: "feed r (xs @ ys) a = feed r ys (feed r xs a)"
  by (induction xs arbitrary: a) simp_all

subsection \<open>Pieces and the script\<close>

lemma chunks_Suc: "chunks E f (Suc k) = chunks E f k @ [Chunk (int k) (piece_at E f k)]"
  by (simp add: chunks_def)

lemma length_chunks [simp]: "length (chunks E f k) = k"
  by (simp add: chunks_def)

lemma take_chunks: "take j (chunks E f k) = chunks E f (min j k)"
proof (cases "j \<le> k")
  case True
  then show ?thesis by (simp add: chunks_def take_map min_def)
next
  case False
  then show ?thesis by (simp add: chunks_def min_def)
qed

lemma chunks_split: "k \<le> n \<Longrightarrow> chunks E f n = chunks E f k @ drop k (chunks E f n)"
proof -
  assume "k \<le> n"
  then have "take k (chunks E f n) = chunks E f k" by (simp add: take_chunks min_def)
  then show ?thesis by (metis append_take_drop_id)
qed

lemma Eof_notin_chunks: "Eof \<notin> set (chunks E f k)"
  by (auto simp: chunks_def)

lemma send_log_Suc:
  "send_log E f (Suc k) =
     send_log E f k @ [percent (rnd E) (Suc k * piece E) (length (file_bytes f))]"
  by (simp add: send_log_def)

lemma length_piece_at:
  "length (piece_at E f k) = min (piece E) (length (file_bytes f) - k * piece E)"
  by (simp add: piece_at_def)

lemma full_piece:
  assumes "0 < piece E" "Suc i < n_pieces E f"
  shows "length (piece_at E f i) = piece E"
proof -
  from assms lt_n_pieces [OF assms(1), of "Suc i" f]
  have "Suc i * piece E < length (file_bytes f)" by simp
  then show ?thesis by (simp add: length_piece_at)
qed

lemma concat_pieces:
  "concat (map (piece_at E f) [0..<k]) = take (k * piece E) (file_bytes f)"
proof (induction k)
  case 0
  show ?case by simp
next
  case (Suc k)
  have "take (k * piece E + piece E) (file_bytes f) =
      take (k * piece E) (file_bytes f) @ take (piece E) (drop (k * piece E) (file_bytes f))"
    by (rule take_add)
  with Suc show ?case by (simp add: piece_at_def add.commute)
qed

lemma pieces_cover:
  "0 < piece E \<Longrightarrow> take (n_pieces E f * piece E) (file_bytes f) = file_bytes f"
proof -
  assume p: "0 < piece E"
  have "\<not> n_pieces E f * piece E < length (file_bytes f)"
    using lt_n_pieces [OF p, of "n_pieces E f" f] by simp
  then show ?thesis by simp
qed

lemma payloads_append: "payloads (xs @ ys) = payloads xs @ payloads ys"
  by (induction xs rule: payloads.induct) simp_all

lemma payloads_chunks: "payloads (chunks E f k) = map (piece_at E f) [0..<k]"
  by (induction k) (simp_all add: chunks_Suc payloads_append, simp add: chunks_def)

lemma payloads_script: "payloads (script E f) = map (piece_at E f) [0..<n_pieces E f]"
  by (simp add: script_def payloads_append payloads_chunks)

lemma prefix_of_script:
  assumes "script E f = xs @ ys"
  shows "xs = [] \<or> (\<exists>j\<le>n_pieces E f. xs = MetaMsg (meta_of E f) # chunks E f j) \<or>
         xs = script E f"
proof -
  from assms have xs: "xs = take (length xs) (script E f)" by simp
  show ?thesis
  proof (cases "length xs")
    case 0
    then show ?thesis by simp
  next
    case (Suc j)
    show ?thesis
    proof (cases "j \<le> n_pieces E f")
      case True
      with xs Suc have "xs = MetaMsg (meta_of E f) # chunks E f j"
        by (simp add: script_def take_chunks min_def)
      with True show ?thesis by blast
    next
      case False
      with xs Suc have "xs = script E f"
        by (simp add: script_def)
      then show ?thesis by simp
    qed
  qed
qed

lemma meta_size_meta_of [simp]: "meta_size (meta_of E f) = length (file_bytes f)"
  by (simp add: meta_of_def)

lemma meta_chunkSize_meta_of [simp]: "meta_chunkSize (meta_of E f) = piece E"
  by (simp add: meta_of_def)

lemma meta_name_meta_of [simp]: "meta_name (meta_of E f) = file_name f"
  by (simp add: meta_of_def)

subsection \<open>The receiver fed with a prefix of the script\<close>

lemma feed_chunks:
  "feed (rnd E) (chunks E f k) (after_pieces E f 0) = after_pieces E f k"
proof (induction k)
  case 0
  show ?case by (simp add: chunks_def)
next
  case (Suc k)
  have "min (k * piece E) (length (file_bytes f)) + length (piece_at E f k) =
      min (Suc k * piece E) (length (file_bytes f))"
    unfolding length_piece_at by (cases "k * piece E \<le> length (file_bytes f)") auto
  with Suc show ?case
    by (simp add: chunks_Suc feed_append after_pieces_def recv_log_def Let_def)
qed

lemma feed_meta_chunks:
  "feed (rnd E) (MetaMsg (meta_of E f) # chunks E f k) App_init = after_pieces E f k"
proof -
  have "fst (onData (rnd E) (MetaMsg (meta_of E f)) App_init) = after_pieces E f 0"
    by (simp add: App_init_def after_pieces_def recv_log_def chunks_def)
  then show ?thesis by (simp add: feed_chunks)
qed

lemma feed_script:
  "0 < piece E \<Longrightarrow>
   feed (rnd E) (script E f) App_init =
     (after_pieces E f (n_pieces E f))
       \<lparr>downloads := [download_of E f],
        recvProgress := recv_log E f (n_pieces E f) @ [Num 100]\<rparr>"
proof -
  assume p: "0 < piece E"
  have "script E f = (MetaMsg (meta_of E f) # chunks E f (n_pieces E f)) @ [Eof]"
    by (simp add: script_def)
  then have "feed (rnd E) (script E f) App_init =
      fst (onData (rnd E) Eof (after_pieces E f (n_pieces E f)))"
    by (simp only: feed_append feed_meta_chunks) simp
  also have "\<dots> = (after_pieces E f (n_pieces E f))
       \<lparr>downloads := [download_of E f],
        recvProgress := recv_log E f (n_pieces E f) @ [Num 100]\<rparr>"
    using pieces_cover [OF p, of f]
    by (simp add: after_pieces_def download_of_def concat_pieces)
  finally show ?thesis .
qed

subsection \<open>The invariants hold in every run\<close>

lemma run_append:
  "run E (es @ es') s = (case run E es s of None \<Rightarrow> None | Some s1 \<Rightarrow> run E es' s1)"
  by (induction es arbitrary: s) (simp_all split: option.splits)

lemma sender_inv_init: "sender_inv E f (init (Some f))"
  by (simp add: sender_inv_def init_def App_init_def)

lemma sender_inv_click:
  "sender_inv E f s \<Longrightarrow> pc s = PcIdle \<Longrightarrow> sender_inv E f (sendFile E s)"
  by (auto simp: sender_inv_def sendFile_def conn_send_def setSendProgress_def at_piece_def
      chunks_def send_log_def Let_def)

lemma sender_inv_resume:
  assumes "0 < piece E" "sender_inv E f s" "resume E f s = Some s'"
  shows "sender_inv E f s'"
proof (cases "pc s")
  case PcLoop
  with assms show ?thesis
    using lt_n_pieces [of E "nat (index s)" f]
    by (auto simp: sender_inv_def resume_def trySend_def at_piece_def split: if_splits)
next
  case PcSlice
  with assms show ?thesis
    by (auto simp: sender_inv_def resume_def trySend_def at_piece_def piece_at_def)
next
  case (PcWaitChunk buf)
  show ?thesis
  proof (cases "busyRef (sender s)")
    case True
    with assms PcWaitChunk show ?thesis by (auto simp: resume_def trySend_def)
  next
    case False
    note busy = this
    from assms(2) PcWaitChunk have ap: "at_piece E f s" and lt: "nat (index s) < n_pieces E f"
      and buf: "buf = piece_at E f (nat (index s))" and fl: "file' s = Some f"
      by (simp_all add: sender_inv_def)
    have nat1: "nat (index s + 1) = Suc (nat (index s))"
      using ap by (simp add: at_piece_def nat_add_distrib)
    have ch: "sent s @ [Chunk (index s) buf] =
        MetaMsg (meta_of E f) # chunks E f (Suc (nat (index s)))"
      using ap buf by (simp add: at_piece_def chunks_Suc)
    show ?thesis
    proof (cases "is_open s \<or> on_closed E = Drops")
      case True
      with assms(3) PcWaitChunk busy ap lt fl ch nat1 show ?thesis
        by (auto simp: sender_inv_def resume_def trySend_def at_piece_def conn_send_def
            setSendProgress_def set_busy_def Let_def send_log_Suc add.commute
            split: closed_send.splits)
    next
      case False
      then have "on_closed E = Throws" "\<not> is_open s" by (cases "on_closed E", auto)
      with assms(3) PcWaitChunk busy have s': "s' = failed (Chunk (index s) buf) (set_busy True s)"
        by (auto simp: resume_def trySend_def conn_send_def Let_def set_busy_def)
      have "sent s' = MetaMsg (meta_of E f) # chunks E f (Suc (nat (index s)))"
        using ch by (simp add: s' failed_def set_busy_def)
      with lt have "\<exists>k\<le>n_pieces E f. sent s' = MetaMsg (meta_of E f) # chunks E f k"
        by (intro exI [of _ "Suc (nat (index s))"]) simp
      moreover have "sendProgress (sender s') = send_log E f (nat (index s))"
        using ap by (simp add: s' failed_def set_busy_def at_piece_def)
      with lt have "\<exists>j\<le>n_pieces E f. sendProgress (sender s') = send_log E f j"
        by (intro exI [of _ "nat (index s)"]) simp
      moreover have "pc s' = PcFailed" "file' s' = Some f"
        using fl by (simp_all add: s' failed_def set_busy_def)
      ultimately show ?thesis
        unfolding sender_inv_def by simp
    qed
  qed
next
  case PcWaitEof
  show ?thesis
  proof (cases "busyRef (sender s)")
    case True
    with assms PcWaitEof show ?thesis by (auto simp: resume_def trySend_def)
  next
    case False
    note busy = this
    from assms(2) PcWaitEof have ap: "at_piece E f s" and eq: "nat (index s) = n_pieces E f"
      and fl: "file' s = Some f"
      by (simp_all add: sender_inv_def)
    have ch: "sent s @ [Eof] = script E f"
      using ap eq by (simp add: at_piece_def script_def)
    show ?thesis
    proof (cases "is_open s \<or> on_closed E = Drops")
      case True
      with assms(3) PcWaitEof busy ap eq fl ch show ?thesis
        by (auto simp: sender_inv_def resume_def trySend_def at_piece_def conn_send_def
            setSendProgress_def set_busy_def Let_def
            split: closed_send.splits)
    next
      case False
      then have "on_closed E = Throws" "\<not> is_open s" by (cases "on_closed E", auto)
      with assms(3) PcWaitEof busy have s': "s' = failed Eof (set_busy True s)"
        by (auto simp: resume_def trySend_def conn_send_def Let_def set_busy_def)
      have "sent s' = script E f"
        using ch by (simp add: s' failed_def set_busy_def)
      moreover have "sendProgress (sender s') = send_log E f (n_pieces E f)"
        using ap eq by (simp add: s' failed_def set_busy_def at_piece_def)
      then have "\<exists>j\<le>n_pieces E f. sendProgress (sender s') = send_log E f j"
        by (intro exI [of _ "n_pieces E f"]) simp
      moreover have "pc s' = PcFailed" "file' s' = Some f"
        using fl by (simp_all add: s' failed_def set_busy_def)
      ultimately show ?thesis
        unfolding sender_inv_def by simp
    qed
  qed
qed (use assms in \<open>auto simp: resume_def trySend_def\<close>)

lemma sender_inv_cong:
  assumes "sender_inv E f s"
    and "file' s' = file' s" "pc s' = pc s" "index s' = index s" "offset s' = offset s"
    and "sent s' = sent s" "sendProgress (sender s') = sendProgress (sender s)"
  shows "sender_inv E f s'"
  using assms by (simp add: sender_inv_def at_piece_def split: pc.splits)

lemma chan_inv_send:
  assumes "chan_inv s" "conn_send E msg s = Inr s'"
  shows "chan_inv s'"
proof -
  from assms(1) obtain d where d: "sent s = handled s @ to_receiver s @ d" "is_open s \<longrightarrow> d = []"
    and a: "\<forall>x\<in>set (to_sender s). is_Ack x"
    by (auto simp: chan_inv_def)
  show ?thesis
  proof (cases "is_open s")
    case True
    with assms(2) have s': "s' = s\<lparr>to_receiver := to_receiver s @ [msg], sent := sent s @ [msg]\<rparr>"
      by (simp add: conn_send_def)
    from d True a show ?thesis by (simp add: chan_inv_def s')
  next
    case False
    with assms(2) have s': "s' = s\<lparr>sent := sent s @ [msg]\<rparr>"
      by (simp add: conn_send_def split: closed_send.splits)
    from d False a show ?thesis by (simp add: chan_inv_def s')
  qed
qed

lemma chan_inv_failed:
  assumes "chan_inv s" "\<not> is_open s"
  shows "chan_inv (failed msg s)"
  using assms by (auto simp: chan_inv_def failed_def)

lemma chan_inv_cong:
  assumes "chan_inv s"
    and "sent s' = sent s" "handled s' = handled s" "to_receiver s' = to_receiver s"
    and "to_sender s' = to_sender s" "is_open s' = is_open s"
  shows "chan_inv s'"
  using assms by (simp add: chan_inv_def)

lemma conn_send_Inl: "conn_send E msg s = Inl e \<Longrightarrow> \<not> is_open s"
  by (auto simp: conn_send_def split: if_splits)

lemma conn_send_frame:
  "conn_send E msg s = Inr s' \<Longrightarrow>
   receiver s' = receiver s \<and> handled s' = handled s \<and> to_sender s' = to_sender s \<and>
   is_open s' = is_open s \<and> sender s' = sender s \<and> file' s' = file' s \<and> pc s' = pc s \<and>
   index s' = index s \<and> offset s' = offset s \<and> acks s' = acks s"
  by (auto simp: conn_send_def split: if_splits closed_send.splits)

lemma chan_inv_click: "chan_inv s \<Longrightarrow> chan_inv (sendFile E s)"
proof -
  assume c: "chan_inv s"
  show ?thesis
  proof (cases "file' s")
    case None
    with c show ?thesis by (simp add: sendFile_def)
  next
    case (Some f)
    show ?thesis
    proof (cases "is_open s")
      case False
      with c Some show ?thesis by (simp add: sendFile_def)
    next
      case True
      have c1: "chan_inv (setSendProgress (Num 0) s)"
        using c by (rule chan_inv_cong) (simp_all add: setSendProgress_def)
      show ?thesis
      proof (cases "conn_send E (MetaMsg (meta_of E f)) (setSendProgress (Num 0) s)")
        case (Inl e)
        from conn_send_Inl [OF Inl] True show ?thesis by (simp add: setSendProgress_def)
      next
        case (Inr s2)
        from chan_inv_send [OF c1 Inr] have "chan_inv s2" .
        then have "chan_inv (s2\<lparr>offset := 0, index := 0, pc := PcLoop\<rparr>)"
          by (rule chan_inv_cong) simp_all
        with Some True Inr show ?thesis by (simp add: sendFile_def Let_def)
      qed
    qed
  qed
qed

lemma chan_inv_resume:
  assumes "chan_inv s" "resume E f s = Some s'"
  shows "chan_inv s'"
proof (cases "pc s")
  case PcLoop
  with assms(2) have "s' = s\<lparr>pc := PcSlice\<rparr> \<or> s' = s\<lparr>pc := PcWaitEof\<rparr>"
    by (auto simp: resume_def trySend_def)
  then show ?thesis using assms(1) by (auto simp: chan_inv_def)
next
  case PcSlice
  with assms show ?thesis by (auto simp: resume_def trySend_def chan_inv_def)
next
  case (PcWaitChunk buf)
  show ?thesis
  proof (cases "busyRef (sender s)")
    case True
    with assms PcWaitChunk show ?thesis by (auto simp: resume_def trySend_def)
  next
    case False
    have c1: "chan_inv (set_busy True s)"
      using assms(1) by (rule chan_inv_cong) (simp_all add: set_busy_def)
    show ?thesis
    proof (cases "conn_send E (Chunk (index s) buf) (set_busy True s)")
      case (Inl e)
      from conn_send_Inl [OF Inl] chan_inv_failed [OF c1] Inl assms(2) PcWaitChunk False
      show ?thesis by (auto simp: resume_def trySend_def Let_def)
    next
      case (Inr s2)
      from chan_inv_send [OF c1 Inr] have c2: "chan_inv s2" .
      from assms(2) PcWaitChunk False Inr
      have "sent s' = sent s2 \<and> handled s' = handled s2 \<and> to_receiver s' = to_receiver s2 \<and>
          to_sender s' = to_sender s2 \<and> is_open s' = is_open s2"
        by (auto simp: resume_def trySend_def Let_def setSendProgress_def)
      with c2 show ?thesis by (auto intro: chan_inv_cong)
    qed
  qed
next
  case PcWaitEof
  show ?thesis
  proof (cases "busyRef (sender s)")
    case True
    with assms PcWaitEof show ?thesis by (auto simp: resume_def trySend_def)
  next
    case False
    have c1: "chan_inv (set_busy True s)"
      using assms(1) by (rule chan_inv_cong) (simp_all add: set_busy_def)
    show ?thesis
    proof (cases "conn_send E Eof (set_busy True s)")
      case (Inl e)
      from conn_send_Inl [OF Inl] chan_inv_failed [OF c1] Inl assms(2) PcWaitEof False
      show ?thesis by (auto simp: resume_def trySend_def Let_def)
    next
      case (Inr s2)
      from chan_inv_send [OF c1 Inr] have c2: "chan_inv s2" .
      from assms(2) PcWaitEof False Inr
      have "sent s' = sent s2 \<and> handled s' = handled s2 \<and> to_receiver s' = to_receiver s2 \<and>
          to_sender s' = to_sender s2 \<and> is_open s' = is_open s2"
        by (auto simp: resume_def trySend_def Let_def setSendProgress_def)
      with c2 show ?thesis by (auto intro: chan_inv_cong)
    qed
  qed
qed (use assms in \<open>auto simp: resume_def trySend_def\<close>)

lemma resume_frame:
  "resume E f s = Some s' \<Longrightarrow> receiver s' = receiver s \<and> handled s' = handled s"
  by (auto simp: resume_def trySend_def conn_send_def failed_def setSendProgress_def set_busy_def Let_def
      split: pc.splits if_splits closed_send.splits)

lemma sendFile_frame:
  "receiver (sendFile E s) = receiver s \<and> handled (sendFile E s) = handled s"
  by (auto simp: sendFile_def conn_send_def failed_def setSendProgress_def Let_def
      split: option.splits)

lemma system_inv_init: "system_inv E f (init (Some f))"
  using sender_inv_init [of E f]
  by (simp add: system_inv_def chan_inv_def) (simp add: init_def)

lemma system_inv_step:
  assumes "0 < piece E" "system_inv E f s" "step E e s = Some s'"
  shows "system_inv E f s'"
proof -
  from assms(2) have si: "sender_inv E f s" and ci: "chan_inv s"
    and ri: "receiver s = feed (rnd E) (handled s) App_init"
    by (simp_all add: system_inv_def)
  from si have fl: "file' s = Some f" by (simp add: sender_inv_def)
  show ?thesis
  proof (cases e)
    case Click
    with assms(3) have s': "s' = sendFile E s" and idle: "pc s = PcIdle"
      by (auto simp: step_def split: if_splits)
    from sender_inv_click [OF si idle] chan_inv_click [OF ci] sendFile_frame [of E s] ri
    show ?thesis by (simp add: system_inv_def s')
  next
    case Resume
    with assms(3) fl have r: "resume E f s = Some s'" by (simp add: step_def)
    from sender_inv_resume [OF assms(1) si r] chan_inv_resume [OF ci r] resume_frame [OF r] ri
    show ?thesis by (simp add: system_inv_def)
  next
    case ReceiverData
    with assms(3) obtain m ms where q: "to_receiver s = m # ms" and op: "is_open s"
      and s': "s' = s\<lparr>receiver := fst (onData (rnd E) m (receiver s)), to_receiver := ms,
                      to_sender := to_sender s @ snd (onData (rnd E) m (receiver s)),
                      handled := handled s @ [m]\<rparr>"
      by (auto simp: step_def split: list.splits if_splits prod.splits)
    have "sender_inv E f s'"
      using si by (rule sender_inv_cong) (simp_all add: s')
    moreover have "chan_inv s'"
      using ci q onData_out_acks [of "rnd E" m "receiver s"]
      by (auto simp: chan_inv_def s')
    moreover have "receiver s' = feed (rnd E) (handled s') App_init"
      using ri by (simp add: s' feed_append)
    ultimately show ?thesis by (simp add: system_inv_def)
  next
    case SenderData
    with assms(3) obtain m ms where q: "to_sender s = m # ms" and op: "is_open s"
      and s0: "s' = s\<lparr>sender := fst (onData (rnd E) m (sender s)), to_sender := ms,
                      to_receiver := to_receiver s @ snd (onData (rnd E) m (sender s)),
                      sent := sent s @ snd (onData (rnd E) m (sender s)),
                      acks := acks s + (if is_Ack m then 1 else 0)\<rparr>"
      by (auto simp: step_def split: list.splits if_splits prod.splits)
    from ci q have "is_Ack m" by (simp add: chan_inv_def)
    from onData_Ack_sender [OF this] s0
    have s': "s' = s\<lparr>sender := (sender s)\<lparr>busyRef := False\<rparr>, to_sender := ms,
                      to_receiver := to_receiver s, sent := sent s, acks := acks s + 1\<rparr>"
      using \<open>is_Ack m\<close> by simp
    have "sender_inv E f s'"
      using si by (rule sender_inv_cong) (simp_all add: s')
    moreover have "chan_inv s'"
      using ci q by (auto simp: chan_inv_def s')
    moreover have "receiver s' = feed (rnd E) (handled s') App_init"
      using ri by (simp add: s')
    ultimately show ?thesis by (simp add: system_inv_def)
  next
    case Close
    with assms(3) have s': "s' = s\<lparr>is_open := False\<rparr>"
      by (auto simp: step_def split: if_splits)
    have "sender_inv E f s'"
      using si by (rule sender_inv_cong) (simp_all add: s')
    moreover have "chan_inv s'"
      using ci by (auto simp: chan_inv_def s')
    moreover have "receiver s' = feed (rnd E) (handled s') App_init"
      using ri by (simp add: s')
    ultimately show ?thesis by (simp add: system_inv_def)
  qed
qed

lemma system_inv_run:
  "0 < piece E \<Longrightarrow> system_inv E f s \<Longrightarrow> run E es s = Some s' \<Longrightarrow> system_inv E f s'"
proof (induction es arbitrary: s)
  case Nil
  then show ?case by simp
next
  case (Cons e es)
  from Cons.prems(3) obtain s1 where s1: "step E e s = Some s1" "run E es s1 = Some s'"
    by (auto split: option.splits)
  from system_inv_step [OF Cons.prems(1,2) s1(1)] Cons.IH [OF Cons.prems(1) _ s1(2)]
  show ?case by simp
qed

lemma system_inv_reachable:
  "0 < piece E \<Longrightarrow> run E es (init (Some f)) = Some s \<Longrightarrow> system_inv E f s"
  using system_inv_run [OF _ system_inv_init] by blast

lemma sent_prefix_script:
  assumes "sender_inv E f s"
  shows "\<exists>t. script E f = sent s @ t"
proof -
  have k: "\<exists>t. script E f = (MetaMsg (meta_of E f) # chunks E f k) @ t"
    if "k \<le> n_pieces E f" for k
    using chunks_split [OF that, of E f] by (simp add: script_def) (metis append_assoc)
  show ?thesis
  proof (cases "pc s")
    case PcIdle
    with assms show ?thesis by (simp add: sender_inv_def)
  next
    case PcDone
    with assms show ?thesis by (simp add: sender_inv_def)
  next
    case PcFailed
    with assms k show ?thesis by (auto simp: sender_inv_def)
  qed (use assms k in \<open>auto simp: sender_inv_def at_piece_def\<close>)
qed

lemma handled_shape:
  assumes "system_inv E f s"
  shows "handled s = [] \<or>
         (\<exists>j\<le>n_pieces E f. handled s = MetaMsg (meta_of E f) # chunks E f j) \<or>
         handled s = script E f"
proof -
  from assms have si: "sender_inv E f s" and ci: "chan_inv s" by (simp_all add: system_inv_def)
  from sent_prefix_script [OF si] obtain t where t: "script E f = sent s @ t" ..
  from ci obtain d where "sent s = handled s @ to_receiver s @ d" by (auto simp: chan_inv_def)
  with t have "script E f = handled s @ (to_receiver s @ d @ t)" by simp
  then show ?thesis by (rule prefix_of_script)
qed

lemma receiver_cases:
  assumes "0 < piece E" "system_inv E f s"
  shows "(handled s = [] \<and> receiver s = App_init) \<or>
         (\<exists>j\<le>n_pieces E f. handled s = MetaMsg (meta_of E f) # chunks E f j \<and>
            receiver s = after_pieces E f j) \<or>
         (handled s = script E f \<and>
          receiver s = (after_pieces E f (n_pieces E f))
            \<lparr>downloads := [download_of E f],
             recvProgress := recv_log E f (n_pieces E f) @ [Num 100]\<rparr>)"
proof -
  from assms(2) have r: "receiver s = feed (rnd E) (handled s) App_init" by (simp add: system_inv_def)
  from handled_shape [OF assms(2)] show ?thesis
  proof (elim disjE exE conjE)
    assume "handled s = []"
    with r show ?thesis by simp
  next
    fix j assume "j \<le> n_pieces E f" "handled s = MetaMsg (meta_of E f) # chunks E f j"
    with r show ?thesis by (auto simp only: feed_meta_chunks)
  next
    assume "handled s = script E f"
    with r feed_script [OF assms(1), of f] show ?thesis by simp
  qed
qed

lemma done_sent:
  assumes "0 < piece E" "system_inv E f s" "pc s = PcDone"
  shows "int (length (payloads (sent s))) = \<lceil>real (length (file_bytes f)) / real (piece E)\<rceil> \<and>
         (\<forall>i. Suc i < length (payloads (sent s)) \<longrightarrow> length (payloads (sent s) ! i) = piece E) \<and>
         concat (payloads (sent s)) = file_bytes f"
proof -
  from assms(2,3) have s: "sent s = script E f" by (simp add: system_inv_def sender_inv_def)
  have "int (length (payloads (sent s))) = \<lceil>real (length (file_bytes f)) / real (piece E)\<rceil>"
    using assms(1) by (simp add: s payloads_script n_pieces_def ceiling_div_nat)
  moreover have "\<forall>i. Suc i < length (payloads (sent s)) \<longrightarrow> length (payloads (sent s) ! i) = piece E"
    using full_piece [OF assms(1), of _ f] by (simp add: s payloads_script)
  moreover have "concat (payloads (sent s)) = file_bytes f"
    using pieces_cover [OF assms(1), of f] by (simp add: s payloads_script concat_pieces)
  ultimately show ?thesis by simp
qed

lemma received_all:
  assumes "0 < piece E" "system_inv E f s" "Eof \<in> set (handled s)"
  shows "concat (receiveBuffers (receiver s)) = file_bytes f"
    and "downloads (receiver s) = [download_of E f]"
proof -
  from receiver_cases [OF assms(1,2)] assms(3)
  have r: "receiver s = (after_pieces E f (n_pieces E f))
            \<lparr>downloads := [download_of E f],
             recvProgress := recv_log E f (n_pieces E f) @ [Num 100]\<rparr>"
    by (auto simp: Eof_notin_chunks)
  show "concat (receiveBuffers (receiver s)) = file_bytes f"
    using pieces_cover [OF assms(1), of f] by (simp add: r after_pieces_def concat_pieces)
  show "downloads (receiver s) = [download_of E f]"
    by (simp add: r)
qed

lemma downloads_cases:
  assumes "0 < piece E" "system_inv E f s"
  shows "downloads (receiver s) = [] \<or> downloads (receiver s) = [download_of E f]"
  using receiver_cases [OF assms]
  by (elim disjE exE conjE) (simp_all add: App_init_def after_pieces_def)

subsection \<open>A run that completes\<close>

lemma quiet_piece:
  assumes "quiet f s" "offset s < length (file_bytes f)"
  shows "\<exists>s'. run E [Resume, Resume, Resume, ReceiverData, SenderData] s = Some s' \<and>
              quiet f s' \<and> offset s' = offset s + piece E"
  using assms
  by (simp add: quiet_def step_def resume_def trySend_def conn_send_def setSendProgress_def set_busy_def
      Let_def split_beta)

lemma quiet_eof:
  assumes "quiet f s" "\<not> offset s < length (file_bytes f)"
  shows "\<exists>s'. run E [Resume, Resume, ReceiverData] s = Some s' \<and>
              pc s' = PcDone \<and> Eof \<in> set (handled s')"
  using assms
  by (simp add: quiet_def step_def resume_def trySend_def conn_send_def setSendProgress_def set_busy_def
      Let_def split_beta)

lemma quiet_finish:
  assumes "0 < piece E"
  shows "quiet f s \<Longrightarrow> \<exists>es s'. run E es s = Some s' \<and> pc s' = PcDone \<and> Eof \<in> set (handled s')"
proof (induction "length (file_bytes f) - offset s" arbitrary: s rule: less_induct)
  case less
  show ?case
  proof (cases "offset s < length (file_bytes f)")
    case False
    from quiet_eof [OF less.prems False, of E] show ?thesis by blast
  next
    case True
    from quiet_piece [OF less.prems True, of E] obtain s1
      where r1: "run E [Resume, Resume, Resume, ReceiverData, SenderData] s = Some s1"
        and q1: "quiet f s1" and o1: "offset s1 = offset s + piece E"
      by blast
    from o1 True assms
    have "length (file_bytes f) - offset s1 < length (file_bytes f) - offset s" by simp
    from less.hyps [OF this q1] obtain es s'
      where r2: "run E es s1 = Some s'" and d: "pc s' = PcDone" "Eof \<in> set (handled s')"
      by blast
    from r1 r2 have "run E ([Resume, Resume, Resume, ReceiverData, SenderData] @ es) s = Some s'"
      by (simp only: run_append) simp
    with d show ?thesis by blast
  qed
qed

lemma start_quiet:
  "\<exists>s. run E [Click, ReceiverData, SenderData] (init (Some f)) = Some s \<and> quiet f s"
  by (simp add: quiet_def step_def sendFile_def conn_send_def setSendProgress_def
      init_def App_init_def Let_def split_beta)

lemma complete_run_exists:
  assumes "0 < piece E"
  shows "\<exists>es s. run E es (init (Some f)) = Some s \<and> pc s = PcDone \<and> Eof \<in> set (handled s)"
proof -
  from start_quiet [of E f] obtain s0
    where r0: "run E [Click, ReceiverData, SenderData] (init (Some f)) = Some s0"
      and q0: "quiet f s0"
    by blast
  from quiet_finish [OF assms q0] obtain es s
    where r: "run E es s0 = Some s" and d: "pc s = PcDone" "Eof \<in> set (handled s)"
    by blast
  from r0 r have "run E ([Click, ReceiverData, SenderData] @ es) (init (Some f)) = Some s"
    by (simp only: run_append) simp
  with d show ?thesis by blast
qed

subsection \<open>Pieces sent and payload reassembled\<close>

text \<open>
  C3. For a positive piece size and any file, some run completes with the file saved at
  the receiver; and in every run, once \<^verbatim>\<open>sendFile\<close> has finished, the pieces it sent are
  as many as the ceiling of size over piece size (none for the empty file), each but
  possibly the last has exactly the piece size, and together they are the file; once the
  receiver has handled the end marker, the concatenation of its stored buffers, in the
  order of arrival, is the file, and that is what it has saved.
\<close>

theorem transfer_reproduces_payload:
  assumes "0 < piece E"
  shows "(\<exists>es s. run E es (init (Some f)) = Some s \<and> pc s = PcDone \<and>
                  downloads (receiver s) = [download_of E f]) \<and>
         (\<forall>es s. run E es (init (Some f)) = Some s \<longrightarrow>
            (pc s = PcDone \<longrightarrow>
               int (length (payloads (sent s))) =
                 \<lceil>real (length (file_bytes f)) / real (piece E)\<rceil> \<and>
               (\<forall>i. Suc i < length (payloads (sent s)) \<longrightarrow>
                  length (payloads (sent s) ! i) = piece E) \<and>
               concat (payloads (sent s)) = file_bytes f) \<and>
            (Eof \<in> set (handled s) \<longrightarrow>
               concat (receiveBuffers (receiver s)) = file_bytes f \<and>
               downloads (receiver s) = [download_of E f]) \<and>
            (\<forall>d\<in>set (downloads (receiver s)). dl_data d = file_bytes f))"
proof
  from complete_run_exists [OF assms, of f] obtain es s
    where r: "run E es (init (Some f)) = Some s" and d: "pc s = PcDone" "Eof \<in> set (handled s)"
    by blast
  have "downloads (receiver s) = [download_of E f]"
    by (rule received_all(2) [OF assms system_inv_reachable [OF assms r] d(2)])
  with r d(1) have "run E es (init (Some f)) = Some s \<and> pc s = PcDone \<and>
      downloads (receiver s) = [download_of E f]" by simp
  then show "\<exists>es s. run E es (init (Some f)) = Some s \<and> pc s = PcDone \<and>
                  downloads (receiver s) = [download_of E f]" by (intro exI)
next
  show "\<forall>es s. run E es (init (Some f)) = Some s \<longrightarrow>
            (pc s = PcDone \<longrightarrow>
               int (length (payloads (sent s))) =
                 \<lceil>real (length (file_bytes f)) / real (piece E)\<rceil> \<and>
               (\<forall>i. Suc i < length (payloads (sent s)) \<longrightarrow>
                  length (payloads (sent s) ! i) = piece E) \<and>
               concat (payloads (sent s)) = file_bytes f) \<and>
            (Eof \<in> set (handled s) \<longrightarrow>
               concat (receiveBuffers (receiver s)) = file_bytes f \<and>
               downloads (receiver s) = [download_of E f]) \<and>
            (\<forall>d\<in>set (downloads (receiver s)). dl_data d = file_bytes f)"
  proof (intro allI impI)
    fix es s assume r: "run E es (init (Some f)) = Some s"
    note i = system_inv_reachable [OF assms r]
    have a: "pc s = PcDone \<longrightarrow>
               int (length (payloads (sent s))) =
                 \<lceil>real (length (file_bytes f)) / real (piece E)\<rceil> \<and>
               (\<forall>i. Suc i < length (payloads (sent s)) \<longrightarrow>
                  length (payloads (sent s) ! i) = piece E) \<and>
               concat (payloads (sent s)) = file_bytes f"
      using done_sent [OF assms i] by blast
    have b: "Eof \<in> set (handled s) \<longrightarrow>
               concat (receiveBuffers (receiver s)) = file_bytes f \<and>
               downloads (receiver s) = [download_of E f]"
      using received_all [OF assms i] by blast
    have c: "\<forall>d\<in>set (downloads (receiver s)). dl_data d = file_bytes f"
      using downloads_cases [OF assms i] by (auto simp: download_of_def)
    from a b c show "(pc s = PcDone \<longrightarrow>
               int (length (payloads (sent s))) =
                 \<lceil>real (length (file_bytes f)) / real (piece E)\<rceil> \<and>
               (\<forall>i. Suc i < length (payloads (sent s)) \<longrightarrow>
                  length (payloads (sent s) ! i) = piece E) \<and>
               concat (payloads (sent s)) = file_bytes f) \<and>
            (Eof \<in> set (handled s) \<longrightarrow>
               concat (receiveBuffers (receiver s)) = file_bytes f \<and>
               downloads (receiver s) = [download_of E f]) \<and>
            (\<forall>d\<in>set (downloads (receiver s)). dl_data d = file_bytes f)"
      by (intro conjI)
  qed
qed

text \<open>C3 on the three-byte file in pieces of two: two pieces, \<open>[1, 2]\<close> and \<open>[3]\<close>.\<close>

theorem transfer_reproduces_payload_witness:
  "0 < piece E0 \<and> run E0 schedule3 (init (Some F3)) = Some S_done \<and> pc S_done = PcDone \<and>
   Eof \<in> set (handled S_done) \<and>
   int (length (payloads (sent S_done))) = \<lceil>real (length (file_bytes F3)) / real (piece E0)\<rceil> \<and>
   payloads (sent S_done) = [[1, 2], [3]] \<and>
   concat (payloads (sent S_done)) = file_bytes F3 \<and>
   concat (receiveBuffers (receiver S_done)) = file_bytes F3 \<and>
   downloads (receiver S_done) = [download_of E0 F3]"
proof -
  have p: "0 < piece E0" by (simp add: E0_def)
  have r: "run E0 schedule3 (init (Some F3)) = Some S_done"
    by (simp add: schedule3_def S_done_def M3_def sys_defs percent_def ceil_div_def E0_def F3_def
        floor_rat_numeral ceiling_rat_numeral)
  have d: "pc S_done = PcDone" "Eof \<in> set (handled S_done)"
    "payloads (sent S_done) = [[1, 2], [3]]"
    by (simp_all add: S_done_def)
  from transfer_reproduces_payload [OF p, of F3, THEN conjunct2, rule_format, OF r] p r d
  show ?thesis by simp
qed

subsection \<open>Progress\<close>

lemma good_log_Nil: "good_log []"
  by (simp add: good_log_def)

lemma good_log_100: "good_log ps \<Longrightarrow> good_log (ps @ [Num 100])"
  by (auto simp: good_log_def sorted_append in_range_def)

lemma good_log_percent:
  assumes "rounding r" "0 < b \<or> k = 0" "\<And>i j. i \<le> j \<Longrightarrow> g i \<le> g j"
  shows "good_log (Num 0 # map (\<lambda>i. percent r (g i) b) [0..<k])"
  using assms(2)
proof (induction k)
  case 0
  show ?case by (simp add: good_log_def in_range_def)
next
  case (Suc k)
  then have b: "0 < b" by simp
  from Suc.IH b have ih: "good_log (Num 0 # map (\<lambda>i. percent r (g i) b) [0..<k])" by simp
  note ir = percent_in_range [OF assms(1) b]
  have le: "num_of (percent r (g i) b) \<le> num_of (percent r (g k) b)" if "i < k" for i
    using percent_mono [OF assms(1) b assms(3) [of i k]] that by simp
  have "sorted (map num_of (Num 0 # map (\<lambda>i. percent r (g i) b) [0..<k]) @
                [num_of (percent r (g k) b)])"
    using ih ir [of "g k"] le
    by (auto simp: good_log_def sorted_append in_range_def)
  moreover have "\<forall>p\<in>set (Num 0 # map (\<lambda>i. percent r (g i) b) [0..<Suc k]). in_range p"
    using ih ir by (auto simp: good_log_def)
  ultimately show ?case by (simp add: good_log_def)
qed

lemma good_send_log:
  assumes "rounding (rnd E)" "0 < piece E" "k \<le> n_pieces E f"
  shows "good_log (send_log E f k)"
  unfolding send_log_def
  by (rule good_log_percent [OF assms(1) pieces_pos [OF assms(2,3)]]) simp

lemma good_recv_log:
  assumes "rounding (rnd E)" "0 < piece E" "k \<le> n_pieces E f"
  shows "good_log (recv_log E f k)"
  unfolding recv_log_def
proof (rule good_log_percent [OF assms(1) pieces_pos [OF assms(2,3)]])
  fix i j :: nat
  assume "i \<le> j"
  then have "Suc i * piece E \<le> Suc j * piece E" by simp
  then show "min (Suc i * piece E) (length (file_bytes f)) \<le>
      min (Suc j * piece E) (length (file_bytes f))"
    by (rule min.mono [OF _ order_refl])
qed

lemma sender_progress:
  assumes "rounding (rnd E)" "0 < piece E" "system_inv E f s"
  shows "good_log (sendProgress (sender s)) \<and>
         (pc s = PcDone \<longrightarrow> last (sendProgress (sender s)) = Num 100)"
proof -
  from assms(3) have si: "sender_inv E f s" by (simp add: system_inv_def)
  note g = good_send_log [OF assms(1,2)]
  show ?thesis
  proof (cases "pc s")
    case PcIdle
    with si show ?thesis by (simp add: sender_inv_def good_log_Nil)
  next
    case PcDone
    with si good_log_100 [OF g [of "n_pieces E f" f]] show ?thesis
      by (simp add: sender_inv_def)
  next
    case PcFailed
    with si g show ?thesis by (auto simp: sender_inv_def)
  qed (use si g in \<open>auto simp: sender_inv_def at_piece_def\<close>)
qed

lemma receiver_progress:
  assumes "rounding (rnd E)" "0 < piece E" "system_inv E f s"
  shows "good_log (recvProgress (receiver s)) \<and>
         (downloads (receiver s) \<noteq> [] \<longrightarrow> last (recvProgress (receiver s)) = Num 100)"
proof -
  note g = good_recv_log [OF assms(1,2)]
  from receiver_cases [OF assms(2,3)] show ?thesis
  proof (elim disjE exE conjE)
    assume "receiver s = App_init"
    then show ?thesis by (simp add: App_init_def good_log_Nil)
  next
    fix j assume "j \<le> n_pieces E f" "receiver s = after_pieces E f j"
    with g [of j f] show ?thesis by (simp add: after_pieces_def)
  next
    assume "receiver s = (after_pieces E f (n_pieces E f))
            \<lparr>downloads := [download_of E f],
             recvProgress := recv_log E f (n_pieces E f) @ [Num 100]\<rparr>"
    with good_log_100 [OF g [of "n_pieces E f" f]] show ?thesis by simp
  qed
qed

text \<open>
  C6. For a rounding that is monotone and keeps zero, and a positive piece size, in every
  run of one transfer the values the sender reports are non-decreasing numbers in
  0..100, and the last one is 100 once \<^verbatim>\<open>sendFile\<close> has finished; the same holds of the
  values the receiver reports, with 100 the last one once it has saved the file.
\<close>

theorem progress_monotone_to_100:
  assumes "rounding (rnd E)" and "0 < piece E" and "run E es (init (Some f)) = Some s"
  shows "sorted (map num_of (sendProgress (sender s))) \<and>
         (\<forall>p\<in>set (sendProgress (sender s)). is_Num p \<and> 0 \<le> num_of p \<and> num_of p \<le> 100) \<and>
         (pc s = PcDone \<longrightarrow> last (sendProgress (sender s)) = Num 100) \<and>
         sorted (map num_of (recvProgress (receiver s))) \<and>
         (\<forall>p\<in>set (recvProgress (receiver s)). is_Num p \<and> 0 \<le> num_of p \<and> num_of p \<le> 100) \<and>
         (downloads (receiver s) \<noteq> [] \<longrightarrow> last (recvProgress (receiver s)) = Num 100)"
proof -
  note i = system_inv_reachable [OF assms(2,3)]
  from sender_progress [OF assms(1,2) i] receiver_progress [OF assms(1,2) i]
  show ?thesis unfolding good_log_def in_range_def by blast
qed

text \<open>C6 on the complete transfer of the three-byte file: both sides report 0, 66, 100, 100.\<close>

theorem progress_monotone_to_100_witness:
  "rounding (rnd E0) \<and> 0 < piece E0 \<and> run E0 schedule3 (init (Some F3)) = Some S_done \<and>
   pc S_done = PcDone \<and> downloads (receiver S_done) \<noteq> [] \<and>
   sendProgress (sender S_done) = [Num 0, Num 66, Num 100, Num 100] \<and>
   recvProgress (receiver S_done) = [Num 0, Num 66, Num 100, Num 100] \<and>
   sorted (map num_of (sendProgress (sender S_done))) \<and>
   sorted (map num_of (recvProgress (receiver S_done))) \<and>
   last (sendProgress (sender S_done)) = Num 100 \<and>
   last (recvProgress (receiver S_done)) = Num 100"
proof -
  have m: "rounding (rnd E0)" by (simp add: rounding_def mono_def E0_def)
  have p: "0 < piece E0" by (simp add: E0_def)
  have r: "run E0 schedule3 (init (Some F3)) = Some S_done"
    by (simp add: schedule3_def S_done_def M3_def sys_defs percent_def ceil_div_def E0_def F3_def
        floor_rat_numeral ceiling_rat_numeral)
  have d: "pc S_done = PcDone" "downloads (receiver S_done) \<noteq> []"
    "sendProgress (sender S_done) = [Num 0, Num 66, Num 100, Num 100]"
    "recvProgress (receiver S_done) = [Num 0, Num 66, Num 100, Num 100]"
    by (simp_all add: S_done_def App_init_def)
  from progress_monotone_to_100 [OF m p r] m p r d
  show ?thesis by simp
qed

subsection \<open>After the connection has closed\<close>







subsection \<open>The sender against the flow-control claims\<close>

text \<open>
  What does hold of the source: in every run at most two messages of the sender are
  unacknowledged.
\<close>

lemma window_inv_init: "window_inv (init f)"
  by (simp add: window_inv_def init_def App_init_def outstanding_def)

lemma window_inv_step:
  assumes "window_inv s" "step E e s = Some s'"
  shows "window_inv s'"
proof (cases e)
  case Click
  with assms show ?thesis
    by (auto simp: window_inv_def step_def sendFile_def conn_send_def setSendProgress_def
        outstanding_def Let_def split: if_splits option.splits)
next
  case Resume
  with assms show ?thesis
    by (auto simp: window_inv_def step_def resume_def trySend_def conn_send_def failed_def
        setSendProgress_def set_busy_def outstanding_def Let_def
        split: if_splits option.splits pc.splits closed_send.splits)
next
  case ReceiverData
  with assms obtain m ms where q: "to_receiver s = m # ms"
    and s': "s' = s\<lparr>receiver := fst (onData (rnd E) m (receiver s)), to_receiver := ms,
                    to_sender := to_sender s @ snd (onData (rnd E) m (receiver s)),
                    handled := handled s @ [m]\<rparr>"
    by (auto simp: step_def split: list.splits if_splits prod.splits)
  from assms(1) onData_out_acks [of "rnd E" m "receiver s"] show ?thesis
    by (auto simp: window_inv_def s' outstanding_def)
next
  case SenderData
  with assms obtain m ms where q: "to_sender s = m # ms"
    and s0: "s' = s\<lparr>sender := fst (onData (rnd E) m (sender s)), to_sender := ms,
                    to_receiver := to_receiver s @ snd (onData (rnd E) m (sender s)),
                    sent := sent s @ snd (onData (rnd E) m (sender s)),
                    acks := acks s + (if is_Ack m then 1 else 0)\<rparr>"
    by (auto simp: step_def split: list.splits if_splits prod.splits)
  from assms(1) q have a: "is_Ack m" by (simp add: window_inv_def)
  from assms(1) q show ?thesis
    by (auto simp: window_inv_def s0 onData_Ack_sender [OF a] a outstanding_def
        split: if_splits)
next
  case Close
  with assms show ?thesis
    by (auto simp: window_inv_def step_def outstanding_def split: if_splits)
qed

lemma window_inv_run: "window_inv s \<Longrightarrow> run E es s = Some s' \<Longrightarrow> window_inv s'"
proof (induction es arbitrary: s)
  case Nil
  then show ?case by simp
next
  case (Cons e es)
  from Cons.prems(2) obtain s1 where s1: "step E e s = Some s1" "run E es s1 = Some s'"
    by (auto split: option.splits)
  from window_inv_step [OF Cons.prems(1) s1(1)] Cons.IH [OF _ s1(2)] show ?case by simp
qed

lemma outstanding_at_most_two: "run E es (init f) = Some s \<Longrightarrow> outstanding s \<le> 2"
  using window_inv_run [OF window_inv_init, of E es f s]
  by (auto simp: window_inv_def split: if_splits)

text \<open>
  C1. The claim does not hold of the source. \<^verbatim>\<open>sendFile\<close> sends the descriptor without
  setting the flag, so the first \<^verbatim>\<open>waitForAck\<close> finds it clear and returns at once: when
  \<^verbatim>\<open>sendFile\<close> awaits the bytes of piece 1, with no message delivered in either direction,
  the descriptor and piece 0 are both sent and none is acknowledged.
\<close>

theorem two_messages_unacknowledged:
  "map_option outstanding (run E0 [Click, Resume, Resume, Resume, Resume] (init (Some F3))) =
     Some 2 \<and>
   map_option pc (run E0 [Click, Resume, Resume, Resume, Resume] (init (Some F3))) =
     Some PcSlice"
  by (simp add: sys_defs outstanding_def percent_def E0_def F3_def floor_rat_numeral)

text \<open>
  C2. The claim does not hold of the source: in the same execution piece 0 is sent
  while no acknowledgement has been received, the one of the descriptor included; the
  descriptor is still in flight to the receiver.
\<close>

theorem piece0_sent_before_ready_ack:
  "map_option sent (run E0 [Click, Resume, Resume, Resume, Resume] (init (Some F3))) =
     Some [MetaMsg M3, Chunk 0 [1, 2]] \<and>
   map_option acks (run E0 [Click, Resume, Resume, Resume, Resume] (init (Some F3))) =
     Some 0 \<and>
   map_option handled (run E0 [Click, Resume, Resume, Resume, Resume] (init (Some F3))) =
     Some [] \<and>
   map_option to_sender (run E0 [Click, Resume, Resume, Resume, Resume] (init (Some F3))) =
     Some []"
  by (simp add: sys_defs percent_def E0_def F3_def M3_def floor_rat_numeral)

text \<open>
  C7. For the empty file the sender sends the descriptor and the end marker and no
  piece, and the receiver then saves an empty file; but the \<^verbatim>\<open>waitForAck\<close> between the
  two does not wait: the end marker is sent while no acknowledgement has been received
  and the descriptor is still in flight.
\<close>

theorem empty_file_eof_before_ready_ack:
  "map_option sent (run E0 [Click, Resume, Resume] (init (Some F0))) =
     Some [MetaMsg \<lparr>meta_name = ''e'', meta_size = 0, meta_mime = ''text/plain'',
                    meta_chunkSize = 2\<rparr>, Eof] \<and>
   map_option acks (run E0 [Click, Resume, Resume] (init (Some F0))) = Some 0 \<and>
   map_option handled (run E0 [Click, Resume, Resume] (init (Some F0))) = Some [] \<and>
   map_option pc (run E0 [Click, Resume, Resume] (init (Some F0))) = Some PcDone \<and>
   map_option (\<lambda>s. downloads (receiver s))
     (run E0 [Click, Resume, Resume, ReceiverData, ReceiverData] (init (Some F0))) =
     Some [\<lparr>dl_name = ''e'', dl_mime = ''text/plain'', dl_data = []\<rparr>]"
  by (simp add: sys_defs ceil_div_def E0_def F0_def)

end
